theory Spec2Isabelle
  imports Main "HOL-Library.Word" "HOL-Library.Sublist"
begin

section \<open>Characters, bytes and the literals of the source\<close>

text \<open>
  The program is written for Windows, where \<^verbatim>\<open>wchar_t\<close> is a 16-bit code unit and
  \<^verbatim>\<open>std::wstring\<close> is a sequence of them. The list file is a sequence of bytes.
\<close>

type_synonym wchar = "16 word"
type_synonym wstring = "wchar list"
type_synonym byte = "8 word"

definition L :: "string \<Rightarrow> wstring" where
  \<comment> \<open>a wide literal \<^verbatim>\<open>L"..."\<close> of ASCII characters\<close>
  "L s = map (\<lambda>c. of_nat (of_char c)) s"

definition B :: "string \<Rightarrow> byte list" where
  \<comment> \<open>the bytes of an ASCII text, as they stand in a file\<close>
  "B s = map (\<lambda>c. of_nat (of_char c)) s"

definition NL :: wchar where
  \<comment> \<open>\<^verbatim>\<open>L'\n'\<close>, the delimiter of \<^verbatim>\<open>std::getline\<close> and the character written after each text\<close>
  "NL = 10"

definition LF :: byte where
  \<comment> \<open>the byte that stores a newline\<close>
  "LF = 10"

definition NUL :: wchar where
  \<comment> \<open>the terminator of a C wide string\<close>
  "NUL = 0"

definition c_str :: "wstring \<Rightarrow> wstring" where
  \<comment> \<open>what a reader of a \<^verbatim>\<open>const wchar_t*\<close> sees, as in \<^verbatim>\<open>std::wstring text(ptr)\<close> and
      in the argument \<^verbatim>\<open>(L"/c " + cmd).c_str()\<close>: the characters before the first NUL\<close>
  "c_str buf = takeWhile (\<lambda>c. c \<noteq> NUL) buf"

section \<open>The conversion between wide characters and bytes\<close>

text \<open>
  The program opens its wide streams with the locale they are born with: it calls neither
  \<^verbatim>\<open>imbue\<close> nor \<^verbatim>\<open>setlocale\<close>, so the conversion between wide characters and
  bytes is that of the classic \<^verbatim>\<open>"C"\<close> locale of the runtime library. The model
  follows the GNU runtime. A wide character up to \<open>0x7F\<close> is stored as the one byte of
  the same value, and a byte up to \<open>0x7F\<close> is read as the wide character of the same
  value; no other character converts on output, and no other byte on input. A newline is
  stored as the byte \<open>0x0A\<close>. (The Microsoft runtime also converts the characters
  \<open>0x80\<close> to \<open>0xFF\<close> and, in text mode, stores a newline as \<open>0x0D 0x0A\<close> and reads
  that pair back as a newline.)

  On output, the characters inserted into the stream wait in its buffer and are converted
  together when the stream is closed, at the end of \<^verbatim>\<open>AddLinkFromClipboard\<close>: when one
  of them does not convert, none of them reaches the file (the text is taken to fit the
  buffer). On input, the characters before a byte that does not convert are delivered,
  and the stream goes bad when that byte is reached.
\<close>

definition narrow :: "wchar \<Rightarrow> byte option" where
  "narrow c = (if c \<le> 0x7F then Some (ucast c) else None)"

definition widen :: "byte \<Rightarrow> wchar option" where
  "widen b = (if b \<le> 0x7F then Some (ucast b) else None)"

fun codecvt_out :: "wstring \<Rightarrow> byte list option" where
  "codecvt_out [] = Some []"
| "codecvt_out (c # cs) =
     (case narrow c of
        None \<Rightarrow> None
      | Some b \<Rightarrow> (case codecvt_out cs of None \<Rightarrow> None | Some bs \<Rightarrow> Some (b # bs)))"

fun codecvt_in :: "byte list \<Rightarrow> wstring \<times> bool" where
  \<comment> \<open>the characters that the stream delivers, and whether a byte that does not convert
      follows them (\<open>True\<close>) or the end of the file (\<open>False\<close>)\<close>
  "codecvt_in [] = ([], False)"
| "codecvt_in (b # bs) =
     (case widen b of
        None \<Rightarrow> ([], True)
      | Some c \<Rightarrow> (case codecvt_in bs of (cs, bad) \<Rightarrow> (c # cs, bad)))"

section \<open>The state the program acts on\<close>

text \<open>
  \<^verbatim>\<open>AddLinkFromClipboard\<close> asks the clipboard three things in turn, and returns at the
  first that fails: \<^verbatim>\<open>OpenClipboard(NULL)\<close>, \<^verbatim>\<open>GetClipboardData(CF_UNICODETEXT)\<close>
  and \<^verbatim>\<open>GlobalLock(h)\<close>. When all succeed it holds a pointer to a buffer of wide
  characters.
\<close>

datatype clipboard_data =
    Busy
  | NoUnicodeText
  | LockFails
  | Buffer wstring

text \<open>
  The file \<^verbatim>\<open>DOWNLOAD_LIST\<close> either does not exist (\<open>None\<close>) or holds a sequence of
  bytes. Opening it can fail for reasons outside the program (a missing
  \<^verbatim>\<open>system\<close> directory, access rights, a sharing violation): \<open>in_ok\<close> says that an
  existing file opens for input, \<open>out_ok\<close> that the file opens (and is created when
  missing) for output. \<open>launched\<close> is the sequence of \<^verbatim>\<open>ShellExecuteW\<close> calls made so
  far, each with the strings that the call reads at \<^verbatim>\<open>lpFile\<close> and
  \<^verbatim>\<open>lpParameters\<close>.
\<close>

record world =
  clipboard :: clipboard_data
  list_file :: "byte list option"
  in_ok :: bool
  out_ok :: bool
  launched :: "(wstring \<times> wstring) list"

definition contents :: "byte list option \<Rightarrow> byte list" where
  \<comment> \<open>the bytes of the file; a file that does not exist holds none\<close>
  "contents f = (case f of None \<Rightarrow> [] | Some bs \<Rightarrow> bs)"

definition wofstream_app :: "world \<Rightarrow> byte list option" where
  \<comment> \<open>\<^verbatim>\<open>std::wofstream file(DOWNLOAD_LIST, std::ios::app)\<close>: \<open>None\<close> when
      \<^verbatim>\<open>is_open()\<close> is false, else the bytes already in the file (none in a new one)\<close>
  "wofstream_app w = (if out_ok w then Some (contents (list_file w)) else None)"

definition wifstream_open :: "world \<Rightarrow> (wstring \<times> bool) option" where
  \<comment> \<open>\<^verbatim>\<open>std::wifstream f(DOWNLOAD_LIST)\<close>: \<open>None\<close> when the stream failed to open,
      else the characters to be read and how they end\<close>
  "wifstream_open w =
     (if in_ok w then (case list_file w of None \<Rightarrow> None | Some bs \<Rightarrow> Some (codecvt_in bs))
      else None)"

section \<open>The operations on the list\<close>

definition AddLinkFromClipboard :: "world \<Rightarrow> world" where
  "AddLinkFromClipboard w =
     (case clipboard w of
        Busy \<Rightarrow> w
      | NoUnicodeText \<Rightarrow> w
      | LockFails \<Rightarrow> w
      | Buffer buf \<Rightarrow>
          (let text = c_str buf in
           if text = [] then w
           else
             (case wofstream_app w of
                None \<Rightarrow> w
              | Some old \<Rightarrow>
                  (case codecvt_out (text @ L ''\<newline>'') of
                     None \<Rightarrow> w\<lparr>list_file := Some old\<rparr>
                   | Some new \<Rightarrow> w\<lparr>list_file := Some (old @ new)\<rparr>))))"

definition getline :: "wstring \<times> bool \<Rightarrow> (wstring \<times> (wstring \<times> bool)) option" where
  \<comment> \<open>\<^verbatim>\<open>std::getline(f, line)\<close> on what is still to be read. It fails when no
      character is left, and when the stream goes bad before a newline is found; otherwise
      it yields the characters before the first newline and leaves those after it (the
      newline is extracted and dropped)\<close>
  "getline s =
     (case s of (cs, bad) \<Rightarrow>
        if cs = [] \<or> (bad \<and> NL \<notin> set cs) then None
        else Some (takeWhile (\<lambda>c. c \<noteq> NL) cs, (drop 1 (dropWhile (\<lambda>c. c \<noteq> NL) cs), bad)))"

function read_loop :: "wstring \<times> bool \<Rightarrow> wstring list \<Rightarrow> wstring list" where
  "read_loop s res =
     (case getline s of
        None \<Rightarrow> res
      | Some (line, rest) \<Rightarrow> read_loop rest (if line \<noteq> [] then res @ [line] else res))"
  by pat_completeness auto
termination
proof (relation "measure (\<lambda>(s, res). length (fst s))")
  fix s :: "wstring \<times> bool" and res :: "wstring list" and p line rest
  assume g: "getline s = Some p" and p: "(line, rest) = p"
  obtain cs bad where s: "s = (cs, bad)" by (cases s)
  from g p s have ne: "cs \<noteq> []"
    and r: "fst rest = drop 1 (dropWhile (\<lambda>c. c \<noteq> NL) cs)"
    by (auto simp: getline_def split: if_splits)
  have "length (dropWhile (\<lambda>c. c \<noteq> NL) cs) \<le> length cs"
    by (rule length_dropWhile_le)
  with ne r have "length (fst rest) < length cs"
    by (cases cs) auto
  then show "((rest, if line \<noteq> [] then res @ [line] else res), s, res)
             \<in> measure (\<lambda>(s, res). length (fst s))"
    by (simp add: s)
qed simp

declare read_loop.simps [simp del]

definition ReadList :: "world \<Rightarrow> wstring list" where
  "ReadList w =
     (case wifstream_open w of
        None \<Rightarrow> []
      | Some s \<Rightarrow> read_loop s [])"

definition ClearList :: "world \<Rightarrow> world" where
  \<comment> \<open>\<^verbatim>\<open>std::wofstream f(DOWNLOAD_LIST, std::ios::trunc)\<close>: an open that succeeds leaves
      an empty file, one that fails leaves everything as it was\<close>
  "ClearList w = (if out_ok w then w\<lparr>list_file := Some []\<rparr> else w)"

definition RunDownload :: "wstring \<Rightarrow> world \<Rightarrow> world" where
  "RunDownload url w =
     (let cmd = L ''yt-dlp '' @ url in
      w\<lparr>launched := launched w @ [(L ''cmd.exe'', c_str (L ''/c '' @ cmd))]\<rparr>)"

definition DownloadAll :: "world \<Rightarrow> world" where
  "DownloadAll w =
     (let urls = ReadList w in
      ClearList (fold RunDownload urls w))"




section \<open>Notions used to state the properties\<close>

text \<open>
  The program writes the file only by appending a text and a newline or by emptying it, so
  a file that nothing else has written is empty or ends with a newline, and all its bytes
  convert on input. The file is also open to other programs (the menu opens it in an
  editor), so the operations are taken at every content, and the contents with no open
  last line, and those that the stream can read to their end, are named.
\<close>

definition terminated :: "byte list \<Rightarrow> bool" where
  \<comment> \<open>no line is left open: the content is empty or its last byte is a newline\<close>
  "terminated bs = (bs = [] \<or> last bs = LF)"

definition readable :: "byte list \<Rightarrow> bool" where
  \<comment> \<open>every byte converts on input\<close>
  "readable bs = list_all (\<lambda>b. widen b \<noteq> None) bs"

definition convertible :: "wstring \<Rightarrow> bool" where
  \<comment> \<open>every character converts on output\<close>
  "convertible cs = list_all (\<lambda>c. narrow c \<noteq> None) cs"



section \<open>Facts about the conversion\<close>

lemma readable_iff: "readable bs = list_all (\<lambda>b. b \<le> 0x7F) bs"
  by (simp add: readable_def widen_def)

lemma convertible_iff: "convertible cs = list_all (\<lambda>c. c \<le> 0x7F) cs"
  by (simp add: convertible_def narrow_def)

lemma unat_widen: "unat (ucast (b::byte) :: wchar) = unat b"
proof -
  have "unat b < 2 ^ 8" using unsigned_less [of b] by simp
  then have "unat b < 2 ^ 16" by simp
  then show ?thesis by (simp add: unsigned_ucast_eq take_bit_nat_eq_self)
qed





lemma widen_eq_NL: "(ucast (b::byte) :: wchar) = NL \<longleftrightarrow> b = LF"
  by (simp add: NL_def LF_def word_unat_eq_iff unat_widen)

lemma narrow_NL: "(ucast NL :: byte) = LF" and NL_le: "NL \<le> 0x7F" and LF_le: "LF \<le> 0x7F"
  by (simp_all add: NL_def LF_def)

lemma codecvt_out_eq:
  "codecvt_out cs = (if convertible cs then Some (map ucast cs) else None)"
  by (induction cs) (auto simp: convertible_iff narrow_def)

lemma codecvt_in_readable: "readable bs \<Longrightarrow> codecvt_in bs = (map ucast bs, False)"
  by (induction bs) (auto simp: readable_iff widen_def)

lemma codecvt_in_append:
  "readable bs \<Longrightarrow>
   codecvt_in (bs @ bs') = (map ucast bs @ fst (codecvt_in bs'), snd (codecvt_in bs'))"
  by (induction bs) (auto simp: readable_iff widen_def split: prod.splits)

lemma codecvt_in_stops: "\<not> readable bs \<Longrightarrow> codecvt_in (bs @ bs') = codecvt_in bs"
  by (induction bs) (auto simp: readable_iff widen_def split: prod.splits)





lemma convertible_append: "convertible (cs @ cs') \<longleftrightarrow> convertible cs \<and> convertible cs'"
  by (simp add: convertible_iff)



section \<open>Facts about the reading loop\<close>

lemma getline_shorter:
  "getline s = Some (line, rest) \<Longrightarrow> length (fst rest) < length (fst s)"
proof -
  assume g: "getline s = Some (line, rest)"
  obtain cs bad where s: "s = (cs, bad)" by (cases s)
  from g s have ne: "cs \<noteq> []" and r: "fst rest = drop 1 (dropWhile (\<lambda>c. c \<noteq> NL) cs)"
    by (auto simp: getline_def split: if_splits)
  have "length (dropWhile (\<lambda>c. c \<noteq> NL) cs) \<le> length cs"
    by (rule length_dropWhile_le)
  with ne r s show ?thesis
    by (cases cs) auto
qed

lemma read_loop_Nil: "read_loop ([], bad) res = res"
  by (subst read_loop.simps) (simp add: getline_def)

lemma read_loop_fails: "getline s = None \<Longrightarrow> read_loop s res = res"
  by (subst read_loop.simps) simp

lemma read_loop_step:
  "getline s = Some (line, rest) \<Longrightarrow>
   read_loop s res = read_loop rest (if line \<noteq> [] then res @ [line] else res)"
  by (subst read_loop.simps) simp

lemma read_loop_acc: "read_loop s res = res @ read_loop s []"
proof (induction "length (fst s)" arbitrary: s res rule: less_induct)
  case less
  show ?case
  proof (cases "getline s")
    case None
    then show ?thesis by (simp add: read_loop_fails)
  next
    case (Some p)
    obtain line rest where g: "getline s = Some (line, rest)"
      using Some by (cases p) simp
    have shorter: "length (fst rest) < length (fst s)"
      using g by (rule getline_shorter)
    have "read_loop s res = read_loop rest (if line \<noteq> [] then res @ [line] else res)"
      using g by (rule read_loop_step)
    also have "\<dots> = (if line \<noteq> [] then res @ [line] else res) @ read_loop rest []"
      using less [OF shorter] by blast
    also have "\<dots> = res @ ((if line \<noteq> [] then [] @ [line] else []) @ read_loop rest [])"
      by simp
    also have "(if line \<noteq> [] then [] @ [line] else []) @ read_loop rest []
               = read_loop rest (if line \<noteq> [] then [] @ [line] else [])"
      using less [OF shorter] by metis
    also have "\<dots> = read_loop s []"
      using g by (rule read_loop_step [symmetric])
    finally show ?thesis .
  qed
qed

lemma read_one:
  assumes "cs \<noteq> []" and "\<not> (bad \<and> NL \<notin> set cs)"
  shows "read_loop (cs, bad) [] =
     (if takeWhile (\<lambda>c. c \<noteq> NL) cs \<noteq> [] then [takeWhile (\<lambda>c. c \<noteq> NL) cs] else [])
       @ read_loop (drop 1 (dropWhile (\<lambda>c. c \<noteq> NL) cs), bad) []"
proof -
  let ?line = "takeWhile (\<lambda>c. c \<noteq> NL) cs"
  let ?rest = "(drop 1 (dropWhile (\<lambda>c. c \<noteq> NL) cs), bad)"
  have g: "getline (cs, bad) = Some (?line, ?rest)"
    using assms by (simp add: getline_def)
  have "read_loop (cs, bad) [] = read_loop ?rest (if ?line \<noteq> [] then [] @ [?line] else [])"
    using g by (rule read_loop_step)
  also have "\<dots> = (if ?line \<noteq> [] then [?line] else []) @ read_loop ?rest []"
    by (subst read_loop_acc) simp
  finally show ?thesis .
qed

lemma read_cut: "NL \<notin> set cs \<Longrightarrow> read_loop (cs, True) [] = []"
  by (rule read_loop_fails) (simp add: getline_def)

lemma rest_shorter: "cs \<noteq> [] \<Longrightarrow> length (drop 1 (dropWhile (\<lambda>c. c \<noteq> NL) cs)) < length cs"
  using length_dropWhile_le [of "\<lambda>c. c \<noteq> NL" cs] by (cases cs) auto

lemma read_loop_entries:
  "l \<in> set (read_loop (cs, bad) []) \<Longrightarrow> l \<noteq> [] \<and> NL \<notin> set l \<and> set l \<subseteq> set cs"
proof (induction cs arbitrary: l rule: length_induct)
  case (1 cs)
  show ?case
  proof (cases "cs = [] \<or> (bad \<and> NL \<notin> set cs)")
    case True
    then have "getline (cs, bad) = None" by (simp add: getline_def)
    then have "read_loop (cs, bad) [] = []" by (rule read_loop_fails)
    with "1.prems" show ?thesis by simp
  next
    case False
    let ?line = "takeWhile (\<lambda>c. c \<noteq> NL) cs"
    let ?rest = "drop 1 (dropWhile (\<lambda>c. c \<noteq> NL) cs)"
    from False have ne: "cs \<noteq> []" and ok: "\<not> (bad \<and> NL \<notin> set cs)" by auto
    from "1.prems" have "(l = ?line \<and> ?line \<noteq> []) \<or> l \<in> set (read_loop (?rest, bad) [])"
      by (subst (asm) read_one [OF ne ok]) (auto split: if_splits)
    then show ?thesis
    proof
      assume "l = ?line \<and> ?line \<noteq> []"
      then show ?thesis by (auto dest: set_takeWhileD)
    next
      assume m: "l \<in> set (read_loop (?rest, bad) [])"
      have "l \<noteq> [] \<and> NL \<notin> set l \<and> set l \<subseteq> set ?rest"
        using 1 rest_shorter [OF ne] m by blast
      moreover have "set ?rest \<subseteq> set cs"
        by (meson set_drop_subset set_dropWhileD subsetI subsetD)
      ultimately show ?thesis by blast
    qed
  qed
qed

lemma read_loop_no_empty: "[] \<notin> set (read_loop s [])"
  using read_loop_entries [of "[]" "fst s" "snd s"] by auto

lemma read_loop_append:
  "cs = [] \<or> last cs = NL \<Longrightarrow>
   read_loop (cs @ ds, bad) [] = read_loop (cs, False) [] @ read_loop (ds, bad) []"
proof (induction cs rule: length_induct)
  case (1 cs)
  show ?case
  proof (cases "cs = []")
    case True
    then show ?thesis by (simp add: read_loop_Nil)
  next
    case False
    let ?P = "\<lambda>c. c \<noteq> NL"
    let ?rest = "drop 1 (dropWhile ?P cs)"
    from False "1.prems" have l: "last cs = NL" by simp
    then have mem: "NL \<in> set cs" using False last_in_set by metis
    then have dw: "dropWhile ?P cs \<noteq> []" by (auto simp: dropWhile_eq_Nil_conv)
    have tw: "takeWhile ?P (cs @ ds) = takeWhile ?P cs"
      using mem by (simp add: takeWhile_append1)
    have dr: "drop 1 (dropWhile ?P (cs @ ds)) = ?rest @ ds"
      using mem dw by (cases "dropWhile ?P cs") (auto simp: dropWhile_append1)
    have term_rest: "?rest = [] \<or> last ?rest = NL"
    proof (cases "?rest = []")
      case True then show ?thesis by simp
    next
      case False
      then have "last ?rest = last (dropWhile ?P cs)" by (simp add: last_drop)
      also have "\<dots> = last cs" using dw by (metis last_appendR takeWhile_dropWhile_id)
      finally show ?thesis using l by simp
    qed
    have ih: "read_loop (?rest @ ds, bad) [] = read_loop (?rest, False) [] @ read_loop (ds, bad) []"
      using 1 rest_shorter [OF False] term_rest by blast
    have ne: "cs @ ds \<noteq> []" using False by simp
    have ok: "\<not> (bad \<and> NL \<notin> set (cs @ ds))" using mem by simp
    have ok': "\<not> (False \<and> NL \<notin> set cs)" by simp
    have "read_loop (cs @ ds, bad) [] =
            (if takeWhile ?P cs \<noteq> [] then [takeWhile ?P cs] else []) @ read_loop (?rest @ ds, bad) []"
      using read_one [OF ne ok] by (simp only: tw dr)
    also have "\<dots> = ((if takeWhile ?P cs \<noteq> [] then [takeWhile ?P cs] else []) @ read_loop (?rest, False) [])
                     @ read_loop (ds, bad) []"
      by (simp only: ih append_assoc)
    also have "\<dots> = read_loop (cs, False) [] @ read_loop (ds, bad) []"
      by (simp only: read_one [OF False ok'])
    finally show ?thesis .
  qed
qed



section \<open>Facts about the operations\<close>

lemma L_newline: "L ''\<newline>'' = [NL]"
  by (simp add: L_def NL_def)

lemma contents_Some: "contents (Some bs) = bs"
  by (simp add: contents_def)

lemma ReadList_cases:
  "ReadList w = (if in_ok w then read_loop (codecvt_in (contents (list_file w))) [] else [])"
  by (cases "list_file w") (simp_all add: ReadList_def wifstream_open_def contents_def read_loop_Nil)

lemma ReadList_created:
  "ReadList (w\<lparr>list_file := Some (contents (list_file w))\<rparr>) = ReadList w"
  by (simp add: ReadList_cases contents_Some)

lemma Add_appends:
  "clipboard w = Buffer buf \<Longrightarrow> c_str buf \<noteq> [] \<Longrightarrow> out_ok w \<Longrightarrow> convertible (c_str buf) \<Longrightarrow>
   AddLinkFromClipboard w
     = w\<lparr>list_file := Some (contents (list_file w) @ map ucast (c_str buf) @ [LF])\<rparr>"
  by (simp add: AddLinkFromClipboard_def wofstream_app_def L_newline codecvt_out_eq
        convertible_append convertible_iff NL_le narrow_NL)

lemma Add_outcomes:
  "AddLinkFromClipboard w = w \<or>
   AddLinkFromClipboard w = w\<lparr>list_file := Some (contents (list_file w))\<rparr> \<or>
   (\<exists>t. convertible t \<and>
        AddLinkFromClipboard w
          = w\<lparr>list_file := Some (contents (list_file w) @ map ucast t @ [LF])\<rparr>)"
proof (cases "clipboard w")
  case (Buffer buf)
  show ?thesis
  proof (cases "c_str buf \<noteq> [] \<and> out_ok w")
    case True
    show ?thesis
    proof (cases "convertible (c_str buf)")
      case True
      with Buffer \<open>c_str buf \<noteq> [] \<and> out_ok w\<close> show ?thesis
        using Add_appends [of w buf] by blast
    next
      case False
      with Buffer \<open>c_str buf \<noteq> [] \<and> out_ok w\<close> show ?thesis
        by (simp add: AddLinkFromClipboard_def wofstream_app_def codecvt_out_eq
              convertible_append)
    qed
  next
    case False
    with Buffer show ?thesis
      by (auto simp: AddLinkFromClipboard_def wofstream_app_def Let_def)
  qed
qed (simp_all add: AddLinkFromClipboard_def)

lemma terminated_wide:
  "terminated bs \<Longrightarrow> readable bs \<Longrightarrow>
   (map ucast bs :: wstring) = [] \<or> last (map ucast bs :: wstring) = NL"
  by (cases "bs = []") (simp_all add: terminated_def last_map widen_eq_NL)

lemma ReadList_extended:
  assumes "terminated (contents (list_file w))" and "readable (contents (list_file w))"
  shows "ReadList (w\<lparr>list_file := Some (contents (list_file w) @ bs)\<rparr>)
           = ReadList w @ (if in_ok w then read_loop (codecvt_in bs) [] else [])"
proof -
  let ?old = "contents (list_file w)"
  have "read_loop (codecvt_in (?old @ bs)) []
        = read_loop (map ucast ?old @ fst (codecvt_in bs), snd (codecvt_in bs)) []"
    using assms(2) by (simp add: codecvt_in_append)
  also have "\<dots> = read_loop (map ucast ?old, False) []
                   @ read_loop (fst (codecvt_in bs), snd (codecvt_in bs)) []"
    using terminated_wide [OF assms] by (rule read_loop_append)
  also have "\<dots> = read_loop (codecvt_in ?old) [] @ read_loop (codecvt_in bs) []"
    using assms(2) by (simp add: codecvt_in_readable)
  finally show ?thesis
    by (simp add: ReadList_cases contents_Some)
qed

lemma ReadList_extended_cut:
  "\<not> readable (contents (list_file w)) \<Longrightarrow>
   ReadList (w\<lparr>list_file := Some (contents (list_file w) @ bs)\<rparr>) = ReadList w"
  by (simp add: ReadList_cases contents_Some codecvt_in_stops)




lemma fold_RunDownload_frame:
  "list_file (fold RunDownload urls w) = list_file w \<and>
   in_ok (fold RunDownload urls w) = in_ok w \<and>
   out_ok (fold RunDownload urls w) = out_ok w \<and>
   clipboard (fold RunDownload urls w) = clipboard w"
  by (induction urls arbitrary: w) (simp_all add: RunDownload_def)

lemma launched_ClearList: "launched (ClearList w) = launched w"
  by (simp add: ClearList_def)



section \<open>Downloading the list\<close>




text \<open>
  Claim C2, as amended. When the list file opens for output, \<^verbatim>\<open>DownloadAll\<close> leaves
  it empty, and \<^verbatim>\<open>ReadList\<close> then returns the empty list, whatever the file held
  before.
\<close>

theorem DownloadAll_clears_when_writable:
  "out_ok w \<Longrightarrow> list_file (DownloadAll w) = Some [] \<and> ReadList (DownloadAll w) = []"
  by (simp add: DownloadAll_def ClearList_def fold_RunDownload_frame ReadList_cases
        contents_def read_loop_Nil)

text \<open>
  The amended claim at a writable file of one line.
\<close>

theorem DownloadAll_clears_when_writable_witness:
  "list_file (DownloadAll \<lparr>clipboard = NoUnicodeText, list_file = Some (B ''u1'' @ [LF]),
        in_ok = True, out_ok = True, launched = []\<rparr>) = Some [] \<and>
   ReadList (DownloadAll \<lparr>clipboard = NoUnicodeText, list_file = Some (B ''u1'' @ [LF]),
        in_ok = True, out_ok = True, launched = []\<rparr>) = []"
  by (rule DownloadAll_clears_when_writable) simp

text \<open>
  As it is written, the claim fails where the file can be read but does not open for
  output (a read-only file, or one that another process holds): the open in
  \<^verbatim>\<open>ClearList\<close> fails, nothing checks it, and the entry is still there after the
  download.
\<close>

theorem DownloadAll_not_cleared_counterexample:
  "list_file (DownloadAll \<lparr>clipboard = NoUnicodeText, list_file = Some (B ''u1'' @ [LF]),
        in_ok = True, out_ok = False, launched = []\<rparr>) = Some (B ''u1'' @ [LF]) \<and>
   ReadList (DownloadAll \<lparr>clipboard = NoUnicodeText, list_file = Some (B ''u1'' @ [LF]),
        in_ok = True, out_ok = False, launched = []\<rparr>) = [L ''u1''] \<and>
   ReadList (DownloadAll \<lparr>clipboard = NoUnicodeText, list_file = Some (B ''u1'' @ [LF]),
        in_ok = True, out_ok = False, launched = []\<rparr>) \<noteq> []"
  by code_simp

text \<open>
  Claim C7. When the list file is missing, or is there and does not open for input,
  \<^verbatim>\<open>ReadList\<close> returns the empty list and \<^verbatim>\<open>DownloadAll\<close> makes no
  \<^verbatim>\<open>ShellExecuteW\<close> call: all it does is what \<^verbatim>\<open>ClearList\<close> does. The state
  has no channel on which an error could be reported.
\<close>

theorem missing_file_no_download:
  "list_file w = None \<or> \<not> in_ok w \<Longrightarrow>
   ReadList w = [] \<and> launched (DownloadAll w) = launched w \<and> DownloadAll w = ClearList w"
  by (auto simp: ReadList_def wifstream_open_def DownloadAll_def launched_ClearList)

text \<open>
  The theorem at a missing file, in a state that already records one earlier call.
\<close>

theorem missing_file_no_download_witness:
  "ReadList \<lparr>clipboard = NoUnicodeText, list_file = None,
        in_ok = True, out_ok = False, launched = [(L ''cmd.exe'', L ''/c yt-dlp old'')]\<rparr> = [] \<and>
   launched (DownloadAll \<lparr>clipboard = NoUnicodeText, list_file = None,
        in_ok = True, out_ok = False, launched = [(L ''cmd.exe'', L ''/c yt-dlp old'')]\<rparr>)
     = [(L ''cmd.exe'', L ''/c yt-dlp old'')]"
  using missing_file_no_download [of "\<lparr>clipboard = NoUnicodeText, list_file = None,
        in_ok = True, out_ok = False, launched = [(L ''cmd.exe'', L ''/c yt-dlp old'')]\<rparr>"]
  by (simp add: launched_ClearList)

text \<open>
  Claim C8. Whatever the file holds, no entry of the list that \<^verbatim>\<open>ReadList\<close>
  returns is the empty string: the loop keeps a line only when it is not empty, so a blank
  line gives no entry (and so no call of the download, which makes its calls from the
  entries).
\<close>

theorem ReadList_no_empty_entry:
  "[] \<notin> set (ReadList w)"
  by (simp add: ReadList_cases read_loop_no_empty)

text \<open>
  The theorem at a file with a leading blank line, a blank line between two lines and no
  final newline: the two lines that are not blank are the list.
\<close>

theorem ReadList_no_empty_entry_witness:
  "ReadList \<lparr>clipboard = NoUnicodeText,
        list_file = Some ([LF] @ B ''a'' @ [LF, LF] @ B ''b''),
        in_ok = True, out_ok = True, launched = []\<rparr> = [L ''a'', L ''b''] \<and>
   [] \<notin> set (ReadList \<lparr>clipboard = NoUnicodeText,
        list_file = Some ([LF] @ B ''a'' @ [LF, LF] @ B ''b''),
        in_ok = True, out_ok = True, launched = []\<rparr>)"
proof -
  let ?w = "\<lparr>clipboard = NoUnicodeText,
        list_file = Some ([LF] @ B ''a'' @ [LF, LF] @ B ''b''),
        in_ok = True, out_ok = True, launched = []\<rparr>"
  have a: "ReadList ?w = [L ''a'', L ''b'']"
    by code_simp
  show ?thesis using a by (rule conjI [OF _ ReadList_no_empty_entry])
qed

section \<open>Adding the clipboard text\<close>

text \<open>
  Claim C4. When the clipboard cannot be opened, holds no Unicode text, cannot be
  locked or holds the empty text, or when the list file does not open for appending,
  \<^verbatim>\<open>AddLinkFromClipboard\<close> returns with the whole state as it was: the list file is
  unchanged, nothing is launched, and no other effect is there to report an error.
\<close>

theorem Add_silent_when_nothing_to_add:
  "clipboard w = Busy \<or> clipboard w = NoUnicodeText \<or> clipboard w = LockFails \<or>
   (\<exists>buf. clipboard w = Buffer buf \<and> c_str buf = []) \<or> \<not> out_ok w \<Longrightarrow>
   AddLinkFromClipboard w = w"
  by (cases "clipboard w") (auto simp: AddLinkFromClipboard_def wofstream_app_def Let_def)

text \<open>
  The theorem at a file that does not open for appending, and at an empty clipboard
  text.
\<close>

theorem Add_silent_when_nothing_to_add_witness:
  "AddLinkFromClipboard \<lparr>clipboard = Buffer (L ''https://a'' @ [NUL]),
        list_file = Some (B ''u1'' @ [LF]), in_ok = True, out_ok = False, launched = []\<rparr>
   = \<lparr>clipboard = Buffer (L ''https://a'' @ [NUL]),
        list_file = Some (B ''u1'' @ [LF]), in_ok = True, out_ok = False, launched = []\<rparr> \<and>
   AddLinkFromClipboard \<lparr>clipboard = Buffer [NUL],
        list_file = Some (B ''u1'' @ [LF]), in_ok = True, out_ok = True, launched = []\<rparr>
   = \<lparr>clipboard = Buffer [NUL],
        list_file = Some (B ''u1'' @ [LF]), in_ok = True, out_ok = True, launched = []\<rparr>"
proof
  show "AddLinkFromClipboard \<lparr>clipboard = Buffer (L ''https://a'' @ [NUL]),
        list_file = Some (B ''u1'' @ [LF]), in_ok = True, out_ok = False, launched = []\<rparr>
   = \<lparr>clipboard = Buffer (L ''https://a'' @ [NUL]),
        list_file = Some (B ''u1'' @ [LF]), in_ok = True, out_ok = False, launched = []\<rparr>"
    by (rule Add_silent_when_nothing_to_add) simp
  show "AddLinkFromClipboard \<lparr>clipboard = Buffer [NUL],
        list_file = Some (B ''u1'' @ [LF]), in_ok = True, out_ok = True, launched = []\<rparr>
   = \<lparr>clipboard = Buffer [NUL],
        list_file = Some (B ''u1'' @ [LF]), in_ok = True, out_ok = True, launched = []\<rparr>"
    by (rule Add_silent_when_nothing_to_add) (simp add: c_str_def)
qed










text \<open>
  Claim C9, as amended. \<^verbatim>\<open>AddLinkFromClipboard\<close> only appends: the bytes of the file
  before the call are a prefix of those after it. When the old content is empty or ends
  with a newline, the same holds of the lines: the list read before the call is a prefix
  of the list read after it, so every stored line is still there, unchanged and in its
  place.
\<close>

theorem Add_keeps_stored_lines:
  "prefix (contents (list_file w)) (contents (list_file (AddLinkFromClipboard w))) \<and>
   (terminated (contents (list_file w)) \<longrightarrow>
      prefix (ReadList w) (ReadList (AddLinkFromClipboard w)))"
proof -
  from Add_outcomes [of w] consider
      (same) "AddLinkFromClipboard w = w"
    | (made) "AddLinkFromClipboard w = w\<lparr>list_file := Some (contents (list_file w))\<rparr>"
    | (more) t :: wstring where
        "AddLinkFromClipboard w
           = w\<lparr>list_file := Some (contents (list_file w) @ map ucast t @ [LF])\<rparr>"
    by blast
  then show ?thesis
  proof cases
    case same
    then show ?thesis by simp
  next
    case made
    then show ?thesis by (simp add: contents_Some ReadList_created)
  next
    case more
    show ?thesis
    proof (cases "readable (contents (list_file w))")
      case True
      then show ?thesis
        unfolding more by (simp add: contents_Some ReadList_extended)
    next
      case False
      then show ?thesis
        unfolding more by (simp add: contents_Some ReadList_extended_cut)
    qed
  qed
qed

text \<open>
  The amended claim at a file of two lines with a blank line between them.
\<close>

theorem Add_keeps_stored_lines_witness:
  "prefix [L ''a'', L ''b'']
     (ReadList (AddLinkFromClipboard \<lparr>clipboard = Buffer (L ''c'' @ [NUL]),
        list_file = Some (B ''a'' @ [LF, LF] @ B ''b'' @ [LF]),
        in_ok = True, out_ok = True, launched = []\<rparr>))"
proof -
  let ?w = "\<lparr>clipboard = Buffer (L ''c'' @ [NUL]),
        list_file = Some (B ''a'' @ [LF, LF] @ B ''b'' @ [LF]),
        in_ok = True, out_ok = True, launched = []\<rparr>"
  have r: "ReadList ?w = [L ''a'', L ''b'']" by code_simp
  have tm: "terminated (contents (list_file ?w))" by code_simp
  from Add_keeps_stored_lines [of ?w] tm
  have "prefix (ReadList ?w) (ReadList (AddLinkFromClipboard ?w))" by blast
  then show ?thesis unfolding r .
qed

text \<open>
  As it is written, the claim fails for a file whose last line has no newline (the file
  can be edited by hand: the menu opens it). The appended text continues that line, and
  the line stored before the call is no entry of the list after it.
\<close>

theorem Add_keeps_stored_lines_counterexample:
  "ReadList \<lparr>clipboard = Buffer (L ''def'' @ [NUL]), list_file = Some (B ''abc''),
        in_ok = True, out_ok = True, launched = []\<rparr> = [L ''abc''] \<and>
   ReadList (AddLinkFromClipboard \<lparr>clipboard = Buffer (L ''def'' @ [NUL]),
        list_file = Some (B ''abc''), in_ok = True, out_ok = True, launched = []\<rparr>)
     = [L ''abcdef''] \<and>
   L ''abc'' \<notin> set (ReadList (AddLinkFromClipboard \<lparr>clipboard = Buffer (L ''def'' @ [NUL]),
        list_file = Some (B ''abc''), in_ok = True, out_ok = True, launched = []\<rparr>))"
  by code_simp

text \<open>
  Claim C10. There is a clipboard text with a newline in it for which the list read
  after \<^verbatim>\<open>AddLinkFromClipboard\<close> has more than one new entry: the new entries are the
  segments of the text between newlines that are not empty, and the whole text is no
  entry of the list.
\<close>

theorem embedded_newline_makes_several_entries:
  "\<exists>buf w. clipboard w = Buffer buf \<and> NL \<in> set (c_str buf) \<and>
     length (ReadList (AddLinkFromClipboard w)) > length (ReadList w) + 1 \<and>
     ReadList (AddLinkFromClipboard w) = ReadList w @ read_loop (c_str buf, False) [] \<and>
     c_str buf \<notin> set (ReadList (AddLinkFromClipboard w))"
proof -
  let ?buf = "L ''https://a'' @ [NL] @ L ''https://b'' @ [NUL]"
  let ?w = "\<lparr>clipboard = Buffer ?buf, list_file = Some (B ''https://x'' @ [LF]),
        in_ok = True, out_ok = True, launched = []\<rparr>"
  have "clipboard ?w = Buffer ?buf" by simp
  moreover have "NL \<in> set (c_str ?buf)" by code_simp
  moreover have "length (ReadList (AddLinkFromClipboard ?w)) > length (ReadList ?w) + 1"
    by code_simp
  moreover have "ReadList (AddLinkFromClipboard ?w) = ReadList ?w @ read_loop (c_str ?buf, False) []"
    by code_simp
  moreover have "c_str ?buf \<notin> set (ReadList (AddLinkFromClipboard ?w))"
    by code_simp
  ultimately show ?thesis by blast
qed

end
